theory Spec2Isabelle
  imports Main "HOL-Library.Sublist"
begin

section \<open>Go values\<close>

text \<open>
  The catalog package of iceberg-go (catalog/catalog.go). Strings are byte sequences
  (\<open>string\<close>), slices of strings are lists; a nil slice and an empty one are both
  \<open>[]\<close> (the code only reads their length and elements).

  A Go map is a reference: \<open>iceberg.Properties\<close> and \<open>AwsProperties\<close> are
  \<open>map[string]string\<close>. The heap is the list of all map objects, a map value is the
  index of its object, and \<open>None\<close> is the nil map.
\<close>

type_synonym heap = "(string \<rightharpoonup> string) list"

type_synonym Properties = "nat option"

type_synonym AwsProperties = "nat option"

type_synonym Identifier = "string list"

text \<open>
  Failures. \<open>ConflictError msg\<close> is the error value \<open>checkForOverlap\<close> builds with
  \<open>fmt.Errorf\<close>; the others are run-time panics.
\<close>

datatype error =
    ConflictError string
  | NilMapAssignment
  | IndexOutOfRange
  | SliceBoundsOutOfRange

text \<open>The entries of a map value; every read of the nil map finds nothing.\<close>

definition contents :: "heap \<Rightarrow> Properties \<Rightarrow> (string \<rightharpoonup> string)" where
  "contents h m = (case m of None \<Rightarrow> Map.empty | Some a \<Rightarrow> h ! a)"

text \<open>A map value of a running program is nil or points at an object of the heap.\<close>

definition valid_ref :: "heap \<Rightarrow> Properties \<Rightarrow> bool" where
  "valid_ref h m = (case m of None \<Rightarrow> True | Some a \<Rightarrow> a < length h)"

text \<open>\<open>v, ok := m[k]\<close>: \<open>None\<close> when \<open>ok\<close> is false.\<close>

definition map_lookup :: "heap \<Rightarrow> Properties \<Rightarrow> string \<Rightarrow> string option" where
  "map_lookup h m k = contents h m k"

text \<open>\<open>m[k]\<close> as an expression: the zero value \<open>""\<close> for a key that is absent.\<close>

definition map_index :: "heap \<Rightarrow> Properties \<Rightarrow> string \<Rightarrow> string" where
  "map_index h m k = (case map_lookup h m k of None \<Rightarrow> [] | Some v \<Rightarrow> v)"

text \<open>\<open>delete(m, k)\<close>: a no-op on the nil map.\<close>

definition map_delete :: "heap \<Rightarrow> Properties \<Rightarrow> string \<Rightarrow> heap" where
  "map_delete h m k = (case m of None \<Rightarrow> h | Some a \<Rightarrow> h[a := (h ! a)(k := None)])"

text \<open>\<open>m[k] = v\<close>: panics on the nil map.\<close>

definition map_assign :: "heap \<Rightarrow> Properties \<Rightarrow> string \<Rightarrow> string \<Rightarrow> error + heap" where
  "map_assign h m k v =
     (case m of None \<Rightarrow> Inl NilMapAssignment | Some a \<Rightarrow> Inr (h[a := (h ! a)(k \<mapsto> v)]))"

text \<open>\<open>maps.Clone(m)\<close>: a new object with the same entries; the clone of nil is nil.\<close>

definition maps_Clone :: "heap \<Rightarrow> Properties \<Rightarrow> heap \<times> Properties" where
  "maps_Clone h m =
     (case m of None \<Rightarrow> (h, None) | Some a \<Rightarrow> (h @ [h ! a], Some (length h)))"

text \<open>
  \<open>s[i]\<close> and \<open>s[:hi]\<close> on a slice, with Go's run-time checks. The upper bound of
  \<open>s[:hi]\<close> is checked against the capacity in Go; the only use below has
  \<open>hi = len(s) - 1\<close>, which is under the length, so the length stands for it.
\<close>

definition slice_index :: "'a list \<Rightarrow> int \<Rightarrow> error + 'a" where
  "slice_index s i =
     (if 0 \<le> i \<and> i < int (length s) then Inr (s ! nat i) else Inl IndexOutOfRange)"

definition slice_upto :: "'a list \<Rightarrow> int \<Rightarrow> error + 'a list" where
  "slice_upto s hi =
     (if 0 \<le> hi \<and> hi \<le> int (length s) then Inr (take (nat hi) s)
      else Inl SliceBoundsOutOfRange)"

section \<open>Identifiers\<close>

definition TableNameFromIdent :: "Identifier \<Rightarrow> error + string" where
  "TableNameFromIdent ident =
     (if length ident = 0 then Inr [] else slice_index ident (int (length ident) - 1))"

definition NamespaceFromIdent :: "Identifier \<Rightarrow> error + Identifier" where
  "NamespaceFromIdent ident = slice_upto ident (int (length ident) - 1)"

section \<open>Configuration options\<close>

text \<open>
  The connection options record. \<open>aws.Config\<close>, \<open>tls.Config\<close> and \<open>url.URL\<close> belong
  to other packages and stay abstract (\<open>'cfg\<close>, \<open>'tls\<close>, \<open>'url\<close>); a pointer is an
  \<open>option\<close>, nil being \<open>None\<close>. The field \<open>prefix\<close> is \<open>prefix_opt\<close> here.
\<close>

record ('cfg, 'tls, 'url) options =
  awsConfig :: 'cfg
  awsProperties :: AwsProperties
  tlsConfig :: "'tls option"
  credential :: string
  oauthToken :: string
  warehouseLocation :: string
  metadataLocation :: string
  enableSigv4 :: bool
  sigv4Region :: string
  sigv4Service :: string
  prefix_opt :: string
  authUri :: "'url option"

text \<open>The zero value of the record, given the zero value of \<open>aws.Config\<close>.\<close>

definition zero_options :: "'cfg \<Rightarrow> ('cfg, 'tls, 'url) options" where
  "zero_options z =
     \<lparr>awsConfig = z, awsProperties = None, tlsConfig = None, credential = [],
      oauthToken = [], warehouseLocation = [], metadataLocation = [],
      enableSigv4 = False, sigv4Region = [], sigv4Service = [], prefix_opt = [],
      authUri = None\<rparr>"

text \<open>
  An option is a function on a pointer to the record; here it takes the record and
  returns it updated.
\<close>

definition WithSigV4 :: "('cfg, 'tls, 'url) options \<Rightarrow> ('cfg, 'tls, 'url) options" where
  "WithSigV4 opts = opts\<lparr>enableSigv4 := True, sigv4Service := ''execute-api''\<rparr>"

definition WithSigV4RegionSvc ::
  "string \<Rightarrow> string \<Rightarrow> ('cfg, 'tls, 'url) options \<Rightarrow> ('cfg, 'tls, 'url) options" where
  "WithSigV4RegionSvc region service opts =
     (let o1 = opts\<lparr>enableSigv4 := True\<rparr>;
          o2 = o1\<lparr>sigv4Region := region\<rparr>
      in if service = [] then o2\<lparr>sigv4Service := ''execute-api''\<rparr>
         else o2\<lparr>sigv4Service := service\<rparr>)"

text \<open>
  \<open>strings.TrimRight(s, cutset)\<close> of the Go library, for a cutset of ASCII bytes (the
  only call has the cutset \<open>"/"\<close>): the library's loop drops the last byte while it is
  in the cutset.
\<close>

function TrimRight :: "string \<Rightarrow> string \<Rightarrow> string" where
  "TrimRight s cutset =
     (if 0 < length s \<and> last s \<in> set cutset then TrimRight (butlast s) cutset else s)"
  by pat_completeness auto
termination
  by (relation "measure (\<lambda>(s, cutset). length s)") auto

declare TrimRight.simps [simp del]

text \<open>
  The table-creation record; \<open>iceberg.PartitionSpec\<close> and \<open>table.SortOrder\<close> stay
  abstract.
\<close>

record ('spec, 'order) createTableCfg =
  location :: string
  partitionSpec :: "'spec option"
  sortOrder :: 'order
  properties :: Properties

definition WithLocation ::
  "string \<Rightarrow> ('spec, 'order) createTableCfg \<Rightarrow> ('spec, 'order) createTableCfg" where
  "WithLocation loc cfg = cfg\<lparr>location := TrimRight loc ''/''\<rparr>"

definition WithPartitionSpec ::
  "'spec option \<Rightarrow> ('spec, 'order) createTableCfg \<Rightarrow> ('spec, 'order) createTableCfg" where
  "WithPartitionSpec spec cfg = cfg\<lparr>partitionSpec := spec\<rparr>"

definition WithSortOrder ::
  "'order \<Rightarrow> ('spec, 'order) createTableCfg \<Rightarrow> ('spec, 'order) createTableCfg" where
  "WithSortOrder order cfg = cfg\<lparr>sortOrder := order\<rparr>"

definition WithProperties ::
  "Properties \<Rightarrow> ('spec, 'order) createTableCfg \<Rightarrow> ('spec, 'order) createTableCfg" where
  "WithProperties props cfg = cfg\<lparr>properties := props\<rparr>"

section \<open>The properties reconciler\<close>

record PropertiesUpdateSummary =
  Removed :: "string list"
  Updated :: "string list"
  Missing :: "string list"

text \<open>\<open>fmt\<close>'s \<open>%v\<close> of a slice of strings: the elements between brackets, a space between two.\<close>

fun join_spaces :: "string list \<Rightarrow> string" where
  "join_spaces [] = []"
| "join_spaces [x] = x"
| "join_spaces (x # y # ys) = x @ '' '' @ join_spaces (y # ys)"

definition format_v :: "string list \<Rightarrow> string" where
  "format_v xs = ''['' @ join_spaces xs @ '']''"

text \<open>The loop of \<open>checkForOverlap\<close> over \<open>removals\<close>, with the slice \<open>overlap\<close> it appends to.\<close>

fun overlap_loop :: "heap \<Rightarrow> Properties \<Rightarrow> string list \<Rightarrow> string list \<Rightarrow> string list" where
  "overlap_loop h updates [] overlap = overlap"
| "overlap_loop h updates (key # removals) overlap =
     (if map_lookup h updates key \<noteq> None
      then overlap_loop h updates removals (overlap @ [key])
      else overlap_loop h updates removals overlap)"

text \<open>\<open>checkForOverlap\<close> returns the message of its error, \<open>None\<close> for the nil error.\<close>

definition checkForOverlap :: "heap \<Rightarrow> string list \<Rightarrow> Properties \<Rightarrow> string option" where
  "checkForOverlap h removals updates =
     (let overlap = overlap_loop h updates removals []
      in if 0 < length overlap
         then Some (''conflict between removals and updates for keys: '' @ format_v overlap)
         else None)"

text \<open>
  Modelled from the spec: \<open>iceberg.Difference\<close>, of the package \<open>iceberg\<close>, is not
  among the sources. The spec calls its result the set difference of the requested
  removals against the keys recorded in \<open>Removed\<close>, the removals that did not exist
  in the current map, and has \<open>Missing = removals\<close> when nothing was removed: the
  elements of the first slice that are not in the second, in the order of the first
  slice, as often as they occur there.
\<close>

fun Difference :: "string list \<Rightarrow> string list \<Rightarrow> string list" where
  "Difference [] b = []"
| "Difference (x # a) b =
     (if x \<in> set b then Difference a b else x # Difference a b)"

text \<open>The first loop of \<open>getUpdatedPropsAndUpdateSummary\<close>, over \<open>removals\<close>.\<close>

fun removal_loop ::
  "heap \<Rightarrow> Properties \<Rightarrow> string list \<Rightarrow> string list \<Rightarrow> heap \<times> string list" where
  "removal_loop h updatedProps [] removed = (h, removed)"
| "removal_loop h updatedProps (key # removals) removed =
     (if map_lookup h updatedProps key \<noteq> None
      then removal_loop (map_delete h updatedProps key) updatedProps removals (removed @ [key])
      else removal_loop h updatedProps removals removed)"

text \<open>
  The second loop, \<open>for key, value := range updates\<close>. Go visits the entries of a map
  in an order the run time chooses: \<open>order\<close> is the sequence of keys of that run, and
  the value is read when the key's turn comes (an entry that is gone by then is not
  visited). \<open>range_order\<close> says that \<open>order\<close> is such a sequence for the map.
\<close>

definition range_order :: "heap \<Rightarrow> Properties \<Rightarrow> string list \<Rightarrow> bool" where
  "range_order h m order \<longleftrightarrow> distinct order \<and> set order = dom (contents h m)"

fun update_loop ::
  "heap \<Rightarrow> Properties \<Rightarrow> Properties \<Rightarrow> string list \<Rightarrow> string list \<Rightarrow>
   heap \<times> (error + string list)" where
  "update_loop h updates updatedProps [] updated = (h, Inr updated)"
| "update_loop h updates updatedProps (key # order) updated =
     (case map_lookup h updates key of
        None \<Rightarrow> update_loop h updates updatedProps order updated
      | Some v \<Rightarrow>
          if map_index h updatedProps key \<noteq> v
          then (case map_assign h updatedProps key v of
                  Inl e \<Rightarrow> (h, Inl e)
                | Inr h' \<Rightarrow> update_loop h' updates updatedProps order (updated @ [key]))
          else update_loop h updates updatedProps order updated)"

text \<open>
  \<open>getUpdatedPropsAndUpdateSummary\<close> on the heap \<open>h\<close>: the heap after the call, and
  either the failure (\<open>Inl (ConflictError msg)\<close> is the return of
  \<open>nil, PropertiesUpdateSummary{}, err\<close>; a panic otherwise) or the returned map and
  summary.
\<close>

definition getUpdatedPropsAndUpdateSummary ::
  "heap \<Rightarrow> Properties \<Rightarrow> string list \<Rightarrow> Properties \<Rightarrow> string list \<Rightarrow>
   heap \<times> (error + Properties \<times> PropertiesUpdateSummary)" where
  "getUpdatedPropsAndUpdateSummary h currentProps removals updates order =
     (case checkForOverlap h removals updates of
        Some err \<Rightarrow> (h, Inl (ConflictError err))
      | None \<Rightarrow>
          (case maps_Clone h currentProps of (h1, updatedProps) \<Rightarrow>
           case removal_loop h1 updatedProps removals [] of (h2, removed) \<Rightarrow>
           case update_loop h2 updates updatedProps order [] of
             (h3, Inl e) \<Rightarrow> (h3, Inl e)
           | (h3, Inr updated) \<Rightarrow>
               (h3, Inr (updatedProps,
                  \<lparr>Removed = removed, Updated = updated,
                   Missing = Difference removals removed\<rparr>))))"

section \<open>Auxiliary functions\<close>

text \<open>
  What the loops compute, as functions on the entries of the maps: the keys the removal
  loop deletes from \<open>m\<close>, whether the update loop's test \<open>updatedProps[key] != value\<close>
  holds for a key of \<open>u\<close>, and the entries of the returned map.
\<close>

fun removed_keys :: "(string \<rightharpoonup> string) \<Rightarrow> string list \<Rightarrow> string list" where
  "removed_keys m [] = []"
| "removed_keys m (k # ks) =
     (if m k \<noteq> None then k # removed_keys (m(k := None)) ks else removed_keys m ks)"

definition differs :: "(string \<rightharpoonup> string) \<Rightarrow> (string \<rightharpoonup> string) \<Rightarrow> string \<Rightarrow> bool" where
  "differs m u k =
     (case u k of None \<Rightarrow> False
      | Some v \<Rightarrow> (case m k of None \<Rightarrow> [] | Some w \<Rightarrow> w) \<noteq> v)"

definition reconciled ::
  "(string \<rightharpoonup> string) \<Rightarrow> (string \<rightharpoonup> string) \<Rightarrow> string list \<Rightarrow> string list \<Rightarrow>
   (string \<rightharpoonup> string)" where
  "reconciled m u rs ks =
     (\<lambda>k. if k \<in> set ks \<and> differs (m |` (- set rs)) u k then u k
          else (m |` (- set rs)) k)"

text \<open>
  Heaps of examples: object 0 is the current map and object 1 the update map, with the
  values of the spec's first example in \<open>example_heap\<close>.
\<close>

definition example_heap :: heap where
  "example_heap = [[''a'' \<mapsto> ''1'', ''b'' \<mapsto> ''2''], [''a'' \<mapsto> ''1'', ''d'' \<mapsto> ''4'']]"

definition conflict_heap :: heap where
  "conflict_heap = [[''a'' \<mapsto> ''1''], Map.empty]"

definition empty_value_heap :: heap where
  "empty_value_heap = [Map.empty, [''k'' \<mapsto> '''']]"

section \<open>Properties of the identifier functions\<close>

lemma slice_index_last:
  "s \<noteq> [] \<Longrightarrow> slice_index s (int (length s) - 1) = Inr (last s)"
proof -
  assume ne: "s \<noteq> []"
  then have "0 < length s" by simp
  then have n: "nat (int (length s) - 1) = length s - 1" by arith
  from ne show ?thesis
    by (simp add: slice_index_def n last_conv_nth)
qed

lemma slice_upto_butlast:
  "s \<noteq> [] \<Longrightarrow> slice_upto s (int (length s) - 1) = Inr (butlast s)"
proof -
  assume ne: "s \<noteq> []"
  then have "0 < length s" by simp
  then have n: "nat (int (length s) - 1) = length s - 1" by arith
  from ne show ?thesis
    by (simp add: slice_upto_def n butlast_conv_take)
qed

text \<open>
  Claim C6. For an identifier with at least one segment, \<open>TableNameFromIdent\<close> returns
  the last segment and \<open>NamespaceFromIdent\<close> returns all segments but the last, a
  sequence one shorter than the identifier (empty for a one-segment identifier). For the
  empty identifier \<open>TableNameFromIdent\<close> returns the empty string, and it fails on no
  identifier at all.
\<close>

theorem ident_decomposition:
  "(ident \<noteq> [] \<longrightarrow>
      TableNameFromIdent ident = Inr (last ident) \<and>
      NamespaceFromIdent ident = Inr (butlast ident) \<and>
      length (butlast ident) = length ident - 1 \<and>
      ident = butlast ident @ [last ident]) \<and>
   NamespaceFromIdent [seg] = Inr [] \<and>
   TableNameFromIdent [] = Inr [] \<and>
   (\<exists>name. TableNameFromIdent ident = Inr name)"
proof -
  have a: "ident \<noteq> [] \<Longrightarrow> TableNameFromIdent ident = Inr (last ident)"
    by (simp add: TableNameFromIdent_def slice_index_last)
  have b: "ident \<noteq> [] \<Longrightarrow> NamespaceFromIdent ident = Inr (butlast ident)"
    by (simp add: NamespaceFromIdent_def slice_upto_butlast)
  have c: "NamespaceFromIdent [seg] = Inr []"
    by (simp add: NamespaceFromIdent_def slice_upto_def)
  have d: "TableNameFromIdent [] = Inr []"
    by (simp add: TableNameFromIdent_def)
  have e: "\<exists>name. TableNameFromIdent ident = Inr name"
    by (cases "ident = []") (simp_all add: a d)
  from a b c d e show ?thesis by simp
qed

theorem ident_decomposition_witness:
  "TableNameFromIdent [''db'', ''sales'', ''orders''] = Inr ''orders'' \<and>
   NamespaceFromIdent [''db'', ''sales'', ''orders''] = Inr [''db'', ''sales'']"
  using ident_decomposition [of "[''db'', ''sales'', ''orders'']"] by simp

text \<open>
  Claim C9. \<open>NamespaceFromIdent\<close> is not total: on the empty identifier the slice
  expression \<open>ident[:len(ident)-1]\<close> has the bound \<open>-1\<close> and panics, where neither an
  empty namespace nor an error value is returned; it returns exactly when the
  identifier has at least one segment.
\<close>

theorem NamespaceFromIdent_partial:
  "NamespaceFromIdent [] = Inl SliceBoundsOutOfRange \<and>
   ((\<exists>ns. NamespaceFromIdent ident = Inr ns) \<longleftrightarrow> 1 \<le> length ident)"
proof -
  have a: "NamespaceFromIdent [] = Inl SliceBoundsOutOfRange"
    by (simp add: NamespaceFromIdent_def slice_upto_def)
  have b: "(\<exists>ns. NamespaceFromIdent ident = Inr ns) \<longleftrightarrow> 1 \<le> length ident"
  proof (cases "ident = []")
    case True
    then show ?thesis by (simp add: a)
  next
    case False
    then have "1 \<le> length ident" by (cases ident) simp_all
    with False show ?thesis
      by (simp add: NamespaceFromIdent_def slice_upto_butlast)
  qed
  from a b show ?thesis by simp
qed

theorem NamespaceFromIdent_partial_witness:
  "NamespaceFromIdent [] = Inl SliceBoundsOutOfRange \<and>
   (\<exists>ns. NamespaceFromIdent [''db'', ''orders''] = Inr ns)"
  using NamespaceFromIdent_partial [of "[''db'', ''orders'']"] by simp

section \<open>Properties of the options\<close>

lemma TrimRight_eq: "TrimRight s cutset = rev (dropWhile (\<lambda>c. c \<in> set cutset) (rev s))"
proof (induction s cutset rule: TrimRight.induct)
  case (1 s cutset)
  show ?case
  proof (cases "0 < length s \<and> last s \<in> set cutset")
    case True
    then have s: "s = butlast s @ [last s]" by simp
    have "TrimRight s cutset = TrimRight (butlast s) cutset"
      using True by (subst TrimRight.simps) simp
    also have "\<dots> = rev (dropWhile (\<lambda>c. c \<in> set cutset) (rev (butlast s)))"
      using True 1 by simp
    also have "\<dots> = rev (dropWhile (\<lambda>c. c \<in> set cutset) (rev s))"
      using True by (subst (2) s) (simp del: append_butlast_last_id)
    finally show ?thesis .
  next
    case False
    then have "TrimRight s cutset = s"
      by (subst TrimRight.simps) auto
    moreover from False have "dropWhile (\<lambda>c. c \<in> set cutset) (rev s) = rev s"
      by (cases s rule: rev_cases) auto
    ultimately show ?thesis by simp
  qed
qed

lemma TrimRight_replicate: "\<exists>n. s = TrimRight s [c] @ replicate n c"
proof -
  have "rev s = takeWhile (\<lambda>x. x = c) (rev s) @ dropWhile (\<lambda>x. x = c) (rev s)"
    by simp
  moreover have "takeWhile (\<lambda>x. x = c) (rev s) = replicate (length (takeWhile (\<lambda>x. x = c) (rev s))) c"
    by (rule replicate_length_same [symmetric]) (auto dest: set_takeWhileD)
  ultimately have "rev s = replicate (length (takeWhile (\<lambda>x. x = c) (rev s))) c @ dropWhile (\<lambda>x. x = c) (rev s)"
    by simp
  then have "s = rev (dropWhile (\<lambda>x. x = c) (rev s)) @ replicate (length (takeWhile (\<lambda>x. x = c) (rev s))) c"
    by (metis rev_append rev_replicate rev_rev_ident)
  then show ?thesis by (auto simp: TrimRight_eq)
qed

lemma TrimRight_no_trailing: "TrimRight s [c] = [] \<or> last (TrimRight s [c]) \<noteq> c"
proof -
  let ?d = "dropWhile (\<lambda>x. x = c) (rev s)"
  have "?d = [] \<or> hd ?d \<noteq> c"
    using hd_dropWhile [of "\<lambda>x. x = c" "rev s"] by blast
  then show ?thesis
    by (auto simp: TrimRight_eq last_rev)
qed

text \<open>
  Claim C7. Applied to the zero-valued options record, \<open>WithSigV4RegionSvc\<close> enables
  signing, sets the signing region to the given region, and sets the signing service to
  \<open>"execute-api"\<close> when the given service is the empty string and to the given service
  otherwise; \<open>WithSigV4\<close> enables signing with the service \<open>"execute-api"\<close>. Both do
  the same to any record, and change no other field.
\<close>

theorem signing_option:
  fixes opts :: "('cfg, 'tls, 'url) options" and z :: 'cfg
  shows
  "WithSigV4RegionSvc region service (zero_options z :: ('cfg, 'tls, 'url) options) =
     \<lparr>awsConfig = z, awsProperties = None, tlsConfig = None, credential = [],
      oauthToken = [], warehouseLocation = [], metadataLocation = [],
      enableSigv4 = True, sigv4Region = region,
      sigv4Service = (if service = [] then ''execute-api'' else service),
      prefix_opt = [], authUri = None\<rparr> \<and>
   WithSigV4 (zero_options z :: ('cfg, 'tls, 'url) options) =
     \<lparr>awsConfig = z, awsProperties = None, tlsConfig = None, credential = [],
      oauthToken = [], warehouseLocation = [], metadataLocation = [],
      enableSigv4 = True, sigv4Region = [], sigv4Service = ''execute-api'',
      prefix_opt = [], authUri = None\<rparr> \<and>
   WithSigV4RegionSvc region service opts =
     opts\<lparr>enableSigv4 := True, sigv4Region := region,
        sigv4Service := (if service = [] then ''execute-api'' else service)\<rparr> \<and>
   WithSigV4 opts = opts\<lparr>enableSigv4 := True, sigv4Service := ''execute-api''\<rparr>"
  by (simp add: WithSigV4RegionSvc_def WithSigV4_def zero_options_def Let_def)

theorem signing_option_witness:
  "sigv4Service (WithSigV4RegionSvc ''us-east-1'' '''' (zero_options () :: (unit, unit, unit) options)) =
     ''execute-api'' \<and>
   sigv4Service (WithSigV4RegionSvc ''us-east-1'' ''glue'' (zero_options () :: (unit, unit, unit) options)) =
     ''glue'' \<and>
   sigv4Region (WithSigV4RegionSvc ''us-east-1'' ''glue'' (zero_options () :: (unit, unit, unit) options)) =
     ''us-east-1'' \<and>
   enableSigv4 (WithSigV4RegionSvc ''us-east-1'' ''glue'' (zero_options () :: (unit, unit, unit) options)) \<and>
   sigv4Service (WithSigV4 (zero_options () :: (unit, unit, unit) options)) = ''execute-api'' \<and>
   sigv4Region (WithSigV4 (zero_options () :: (unit, unit, unit) options)) = ''''"
proof -
  let ?z = "zero_options () :: (unit, unit, unit) options"
  note a = signing_option [of "''us-east-1''" "''''" "()" ?z]
  note b = signing_option [of "''us-east-1''" "''glue''" "()" ?z]
  from a b show ?thesis by (simp add: zero_options_def)
qed

text \<open>
  Claim C8. \<open>WithLocation\<close> stores the location with every trailing \<open>'/'\<close> stripped:
  the stored string is \<open>TrimRight loc "/"\<close>, the location is the stored string followed by
  slashes only, and the stored string does not end in a slash. Each of the four
  table-creation options stores its argument in its own field and leaves the other
  fields as they are, so an option applied after the same option overwrites the earlier
  value: the field holds the value of the last one.
\<close>

theorem location_option:
  "location (WithLocation loc cfg) = TrimRight loc ''/'' \<and>
   (\<exists>n. loc = location (WithLocation loc cfg) @ replicate n CHR ''/'') \<and>
   (location (WithLocation loc cfg) = [] \<or> last (location (WithLocation loc cfg)) \<noteq> CHR ''/'') \<and>
   WithLocation loc2 (WithLocation loc1 cfg) = WithLocation loc2 cfg \<and>
   WithPartitionSpec spec2 (WithPartitionSpec spec1 cfg) = WithPartitionSpec spec2 cfg \<and>
   WithSortOrder order2 (WithSortOrder order1 cfg) = WithSortOrder order2 cfg \<and>
   WithProperties props2 (WithProperties props1 cfg) = WithProperties props2 cfg \<and>
   location (WithLocation loc2 (WithLocation loc1 cfg)) = TrimRight loc2 ''/'' \<and>
   partitionSpec (WithPartitionSpec spec2 (WithPartitionSpec spec1 cfg)) = spec2 \<and>
   sortOrder (WithSortOrder order2 (WithSortOrder order1 cfg)) = order2 \<and>
   properties (WithProperties props2 (WithProperties props1 cfg)) = props2 \<and>
   WithLocation loc cfg = cfg\<lparr>location := TrimRight loc ''/''\<rparr> \<and>
   WithPartitionSpec spec1 cfg = cfg\<lparr>partitionSpec := spec1\<rparr> \<and>
   WithSortOrder order1 cfg = cfg\<lparr>sortOrder := order1\<rparr> \<and>
   WithProperties props1 cfg = cfg\<lparr>properties := props1\<rparr>"
proof -
  have 1: "location (WithLocation loc cfg) = TrimRight loc ''/''"
    by (simp add: WithLocation_def)
  have 2: "\<exists>n. loc = location (WithLocation loc cfg) @ replicate n CHR ''/''"
    unfolding 1 by (rule TrimRight_replicate)
  have 3: "location (WithLocation loc cfg) = [] \<or> last (location (WithLocation loc cfg)) \<noteq> CHR ''/''"
    unfolding 1 by (rule TrimRight_no_trailing)
  have 4: "WithLocation loc2 (WithLocation loc1 cfg) = WithLocation loc2 cfg"
    by (simp add: WithLocation_def)
  have 5: "WithPartitionSpec spec2 (WithPartitionSpec spec1 cfg) = WithPartitionSpec spec2 cfg"
    "WithSortOrder order2 (WithSortOrder order1 cfg) = WithSortOrder order2 cfg"
    "WithProperties props2 (WithProperties props1 cfg) = WithProperties props2 cfg"
    by (simp_all add: WithPartitionSpec_def WithSortOrder_def WithProperties_def)
  have 6: "location (WithLocation loc2 (WithLocation loc1 cfg)) = TrimRight loc2 ''/''"
    "partitionSpec (WithPartitionSpec spec2 (WithPartitionSpec spec1 cfg)) = spec2"
    "sortOrder (WithSortOrder order2 (WithSortOrder order1 cfg)) = order2"
    "properties (WithProperties props2 (WithProperties props1 cfg)) = props2"
    by (simp_all add: WithLocation_def WithPartitionSpec_def WithSortOrder_def
        WithProperties_def)
  have 7: "WithLocation loc cfg = cfg\<lparr>location := TrimRight loc ''/''\<rparr>"
    "WithPartitionSpec spec1 cfg = cfg\<lparr>partitionSpec := spec1\<rparr>"
    "WithSortOrder order1 cfg = cfg\<lparr>sortOrder := order1\<rparr>"
    "WithProperties props1 cfg = cfg\<lparr>properties := props1\<rparr>"
    by (simp_all add: WithLocation_def WithPartitionSpec_def WithSortOrder_def
        WithProperties_def)
  from 1 2 3 4 5 6 7 show ?thesis by blast
qed

theorem location_option_witness:
  "location (WithLocation ''s3://bucket/path//''
     (\<lparr>location = ''old'', partitionSpec = None, sortOrder = False, properties = None\<rparr>
        :: (nat, bool) createTableCfg)) = ''s3://bucket/path'' \<and>
   location (WithLocation ''s3://b/two/'' (WithLocation ''s3://a/one''
     (\<lparr>location = ''old'', partitionSpec = None, sortOrder = False, properties = None\<rparr>
        :: (nat, bool) createTableCfg))) = ''s3://b/two'' \<and>
   partitionSpec (WithPartitionSpec (Some 2) (WithPartitionSpec (Some 1)
     (\<lparr>location = ''old'', partitionSpec = None, sortOrder = False, properties = None\<rparr>
        :: (nat, bool) createTableCfg))) = Some 2 \<and>
   sortOrder (WithSortOrder True (WithSortOrder False
     (\<lparr>location = ''old'', partitionSpec = None, sortOrder = False, properties = None\<rparr>
        :: (nat, bool) createTableCfg))) = True \<and>
   properties (WithProperties (Some 1) (WithProperties (Some 0)
     (\<lparr>location = ''old'', partitionSpec = None, sortOrder = False, properties = None\<rparr>
        :: (nat, bool) createTableCfg))) = Some 1"
proof -
  let ?cfg = "\<lparr>location = ''old'', partitionSpec = None, sortOrder = False, properties = None\<rparr>
        :: (nat, bool) createTableCfg"
  note t = location_option [where loc = "''s3://bucket/path//''" and cfg = ?cfg
      and ?loc1.0 = "''s3://a/one''" and ?loc2.0 = "''s3://b/two/''"
      and ?spec1.0 = "Some 1" and ?spec2.0 = "Some 2"
      and ?order1.0 = False and ?order2.0 = True
      and ?props1.0 = "Some 0" and ?props2.0 = "Some 1"]
  from t have 1: "location (WithLocation ''s3://bucket/path//'' ?cfg) =
      TrimRight ''s3://bucket/path//'' ''/''"
    by (rule conjunct1)
  from t have 2: "location (WithLocation ''s3://b/two/'' (WithLocation ''s3://a/one'' ?cfg)) =
      TrimRight ''s3://b/two/'' ''/''"
    and 3: "partitionSpec (WithPartitionSpec (Some 2) (WithPartitionSpec (Some 1) ?cfg)) = Some 2"
    and 4: "sortOrder (WithSortOrder True (WithSortOrder False ?cfg)) = True"
    and 5: "properties (WithProperties (Some 1) (WithProperties (Some 0) ?cfg)) = Some 1"
    by blast+
  have e: "TrimRight ''s3://bucket/path//'' ''/'' = ''s3://bucket/path''"
    "TrimRight ''s3://b/two/'' ''/'' = ''s3://b/two''"
    by (simp_all add: TrimRight_eq)
  from 1 2 3 4 5 show ?thesis
    unfolding e by blast
qed

section \<open>The loops of the reconciler\<close>

lemma overlap_loop_eq:
  "overlap_loop h u rs acc = acc @ filter (\<lambda>k. k \<in> dom (contents h u)) rs"
  by (induction rs arbitrary: acc) (auto simp: map_lookup_def)

lemma sublist_join_spaces: "k \<in> set xs \<Longrightarrow> sublist k (join_spaces xs)"
proof (induction xs rule: join_spaces.induct)
  case 1
  then show ?case by simp
next
  case (2 x)
  then show ?case by simp
next
  case (3 x y ys)
  show ?case
  proof (cases "k = x")
    case True
    then show ?thesis by simp
  next
    case False
    with 3 have "sublist k (join_spaces (y # ys))" by simp
    then show ?thesis
      by (metis join_spaces.simps(3) sublist_append_leftI sublist_order.order_trans append_assoc)
  qed
qed

lemma set_removed_keys: "set (removed_keys m ks) = set ks \<inter> dom m"
  by (induction ks arbitrary: m) (auto split: if_splits)

lemma distinct_removed_keys: "distinct (removed_keys m ks)"
  by (induction ks arbitrary: m) (auto simp: set_removed_keys)

lemma Difference_filter: "Difference a b = filter (\<lambda>x. x \<notin> set b) a"
  by (induction a) simp_all

lemma set_Difference: "set (Difference a b) = set a - set b"
  by (auto simp: Difference_filter)

lemma Difference_Nil: "Difference a [] = a"
  by (simp add: Difference_filter)

lemma contents_Some [simp]: "contents h (Some a) = h ! a"
  by (simp add: contents_def)

lemma contents_None [simp]: "contents h None = Map.empty"
  by (simp add: contents_def)

lemma contents_append:
  "valid_ref h m \<Longrightarrow> contents (h @ hs) m = contents h m"
  by (cases m) (simp_all add: valid_ref_def nth_append)

lemma contents_update_other:
  "m \<noteq> Some b \<Longrightarrow> contents (h[b := x]) m = contents h m"
  by (cases m) simp_all

lemma checkForOverlap_None:
  "set rs \<inter> dom (contents h u) = {} \<Longrightarrow> checkForOverlap h rs u = None"
proof -
  assume "set rs \<inter> dom (contents h u) = {}"
  then have "filter (\<lambda>k. k \<in> dom (contents h u)) rs = []"
    by (auto simp: filter_empty_conv)
  then show ?thesis
    by (simp add: checkForOverlap_def overlap_loop_eq)
qed

lemma checkForOverlap_Some:
  "set rs \<inter> dom (contents h u) \<noteq> {} \<Longrightarrow>
   checkForOverlap h rs u =
     Some (''conflict between removals and updates for keys: '' @
           format_v (filter (\<lambda>k. k \<in> dom (contents h u)) rs))"
proof -
  assume "set rs \<inter> dom (contents h u) \<noteq> {}"
  then have "filter (\<lambda>k. k \<in> dom (contents h u)) rs \<noteq> []"
    by (auto simp: filter_empty_conv)
  then show ?thesis
    by (simp add: checkForOverlap_def overlap_loop_eq Let_def)
qed

lemma removal_loop_nil: "removal_loop h None rs acc = (h, acc)"
  by (induction rs arbitrary: acc) (simp_all add: map_lookup_def)

lemma removal_loop_Some:
  "b < length h \<Longrightarrow>
   removal_loop h (Some b) rs acc =
     (h[b := (h ! b) |` (- set rs)], acc @ removed_keys (h ! b) rs)"
proof (induction rs arbitrary: h acc)
  case Nil
  then show ?case by simp
next
  case (Cons k rs)
  show ?case
  proof (cases "(h ! b) k")
    case None
    then have "(h ! b) |` (- set (k # rs)) = (h ! b) |` (- set rs)"
      by (auto simp: restrict_map_def fun_eq_iff)
    with None Cons show ?thesis
      by (simp add: map_lookup_def)
  next
    case (Some v)
    let ?h = "h[b := (h ! b)(k := None)]"
    have len: "b < length ?h" using Cons.prems by simp
    have hb: "?h ! b = (h ! b)(k := None)" using Cons.prems by simp
    have r: "((h ! b)(k := None)) |` (- set rs) = (h ! b) |` (- set (k # rs))"
      by (auto simp: restrict_map_def fun_eq_iff)
    have step: "removal_loop h (Some b) (k # rs) acc = removal_loop ?h (Some b) rs (acc @ [k])"
      using Some by (simp add: map_lookup_def map_delete_def)
    have keys: "removed_keys (h ! b) (k # rs) = k # removed_keys ((h ! b)(k := None)) rs"
      using Some by simp
    show ?thesis
      unfolding step keys Cons.IH [OF len] hb r by simp
  qed
qed

lemma differs_upd_other:
  "k \<noteq> key \<Longrightarrow> differs (m(key \<mapsto> v)) u k = differs m u k"
  by (auto simp: differs_def split: option.splits)

lemma differs_upd_same:
  "u key = Some v \<Longrightarrow> \<not> differs (m(key \<mapsto> v)) u key"
  by (simp add: differs_def)

lemma update_loop_nil:
  "update_loop h u None ks acc =
     (h, if \<exists>k\<in>set ks. differs Map.empty (contents h u) k
         then Inl NilMapAssignment else Inr acc)"
  by (induction ks arbitrary: acc)
     (auto simp: map_lookup_def map_index_def map_assign_def differs_def split: option.splits)

lemma update_loop_Some:
  "b < length h \<Longrightarrow> u \<noteq> Some b \<Longrightarrow> distinct ks \<Longrightarrow>
   update_loop h u (Some b) ks acc =
     (h[b := (\<lambda>k. if k \<in> set ks \<and> differs (h ! b) (contents h u) k
                   then contents h u k else (h ! b) k)],
      Inr (acc @ filter (differs (h ! b) (contents h u)) ks))"
proof (induction ks arbitrary: h acc)
  case Nil
  then show ?case by simp
next
  case (Cons key ks)
  let ?U = "contents h u"
  let ?m = "h ! b"
  show ?case
  proof (cases "differs ?m ?U key")
    case False
    then have step: "update_loop h u (Some b) (key # ks) acc = update_loop h u (Some b) ks acc"
      by (auto simp: differs_def map_lookup_def map_index_def split: option.splits)
    have "(\<lambda>k. if k \<in> set (key # ks) \<and> differs ?m ?U k then ?U k else ?m k) =
          (\<lambda>k. if k \<in> set ks \<and> differs ?m ?U k then ?U k else ?m k)"
      using False by (auto simp: fun_eq_iff)
    with False step Cons show ?thesis by simp
  next
    case True
    then obtain v where v: "?U key = Some v"
      by (auto simp: differs_def split: option.splits)
    let ?h = "h[b := ?m(key \<mapsto> v)]"
    from True v have step:
      "update_loop h u (Some b) (key # ks) acc = update_loop ?h u (Some b) ks (acc @ [key])"
      by (auto simp: differs_def map_lookup_def map_index_def map_assign_def split: option.splits)
    have len: "b < length ?h" using Cons.prems by simp
    have U: "contents ?h u = ?U"
      using Cons.prems by (simp add: contents_update_other)
    have hb: "?h ! b = ?m(key \<mapsto> v)" using Cons.prems by simp
    have notin: "key \<notin> set ks" and dist: "distinct ks" using Cons.prems by simp_all
    have filt: "filter (differs (?m(key \<mapsto> v)) ?U) ks = filter (differs ?m ?U) ks"
      using notin by (intro filter_cong refl) (metis differs_upd_other)
    have fn: "(\<lambda>k. if k \<in> set ks \<and> differs (?m(key \<mapsto> v)) ?U k then ?U k
                   else (?m(key \<mapsto> v)) k) =
              (\<lambda>k. if k \<in> set (key # ks) \<and> differs ?m ?U k then ?U k else ?m k)"
      using notin True v by (auto simp: fun_eq_iff differs_upd_other)
    from Cons.IH [OF len Cons.prems(2) dist, of "acc @ [key]"]
    show ?thesis
      unfolding step U hb filt fn using True by simp
  qed
qed

section \<open>The reconciler as a whole\<close>

lemma reconcile_conflict:
  "set rs \<inter> dom (contents h u) \<noteq> {} \<Longrightarrow>
   getUpdatedPropsAndUpdateSummary h cur rs u ks =
     (h, Inl (ConflictError (''conflict between removals and updates for keys: '' @
                             format_v (filter (\<lambda>k. k \<in> dom (contents h u)) rs))))"
  by (simp add: getUpdatedPropsAndUpdateSummary_def checkForOverlap_Some)

lemma reconcile_nil:
  "set rs \<inter> dom (contents h u) = {} \<Longrightarrow>
   getUpdatedPropsAndUpdateSummary h None rs u ks =
     (h, if \<exists>k\<in>set ks. differs Map.empty (contents h u) k
         then Inl NilMapAssignment
         else Inr (None, \<lparr>Removed = [], Updated = [], Missing = Difference rs []\<rparr>))"
  by (simp add: getUpdatedPropsAndUpdateSummary_def checkForOverlap_None maps_Clone_def
      removal_loop_nil update_loop_nil)

lemma reconcile_Some:
  assumes a: "a < length h" and u: "valid_ref h u" and ks: "distinct ks"
    and no: "set rs \<inter> dom (contents h u) = {}"
  shows "getUpdatedPropsAndUpdateSummary h (Some a) rs u ks =
     (h @ [reconciled (h ! a) (contents h u) rs ks],
      Inr (Some (length h),
        \<lparr>Removed = removed_keys (h ! a) rs,
         Updated = filter (differs ((h ! a) |` (- set rs)) (contents h u)) ks,
         Missing = Difference rs (removed_keys (h ! a) rs)\<rparr>))"
proof -
  let ?h1 = "h @ [h ! a]"
  let ?b = "length h"
  let ?m1 = "(h ! a) |` (- set rs)"
  let ?h2 = "h @ [?m1]"
  have clone: "maps_Clone h (Some a) = (?h1, Some ?b)"
    by (simp add: maps_Clone_def)
  have rem: "removal_loop ?h1 (Some ?b) rs [] = (?h2, removed_keys (h ! a) rs)"
    by (simp add: removal_loop_Some)
  have ub: "u \<noteq> Some ?b" using u by (auto simp: valid_ref_def)
  have U: "contents ?h2 u = contents h u" using u by (rule contents_append)
  have upd: "update_loop ?h2 u (Some ?b) ks [] =
      (h @ [reconciled (h ! a) (contents h u) rs ks],
       Inr (filter (differs ?m1 (contents h u)) ks))"
  proof -
    have hb: "?h2 ! ?b = ?m1" by simp
    have "?b < length ?h2" by simp
    from update_loop_Some [OF this ub ks, of "[]"] show ?thesis
      unfolding U hb by (simp add: reconciled_def)
  qed
  show ?thesis
    by (simp add: getUpdatedPropsAndUpdateSummary_def checkForOverlap_None [OF no]
        clone rem upd)
qed

lemma update_loop_error:
  "update_loop h u m ks acc = (h', Inl e) \<Longrightarrow> e = NilMapAssignment"
  by (induction ks arbitrary: h acc)
     (auto simp: map_assign_def split: option.splits if_splits sum.splits)

lemma removal_loop_frame:
  "removal_loop h m rs acc = (h', r) \<Longrightarrow>
   length h' = length h \<and> (\<forall>i. m \<noteq> Some i \<longrightarrow> h' ! i = h ! i)"
proof (induction rs arbitrary: h acc)
  case Nil
  then show ?case by simp
next
  case (Cons k rs)
  show ?case
  proof (cases "map_lookup h m k")
    case None
    with Cons show ?thesis by simp
  next
    case (Some v)
    with Cons.prems have "removal_loop (map_delete h m k) m rs (acc @ [k]) = (h', r)"
      by simp
    then have "length h' = length (map_delete h m k) \<and>
        (\<forall>i. m \<noteq> Some i \<longrightarrow> h' ! i = map_delete h m k ! i)"
      by (rule Cons.IH)
    then show ?thesis
      by (cases m) (auto simp: map_delete_def)
  qed
qed

lemma update_loop_frame:
  "update_loop h u m ks acc = (h', r) \<Longrightarrow>
   length h' = length h \<and> (\<forall>i. m \<noteq> Some i \<longrightarrow> h' ! i = h ! i)"
proof (induction ks arbitrary: h acc)
  case Nil
  then show ?case by auto
next
  case (Cons key ks)
  show ?case
  proof (cases "map_lookup h u key")
    case None
    with Cons show ?thesis by simp
  next
    case (Some v)
    show ?thesis
    proof (cases "map_index h m key \<noteq> v")
      case False
      with Some Cons show ?thesis by simp
    next
      case True
      show ?thesis
      proof (cases m)
        case None
        with True Some Cons.prems show ?thesis
          by (auto simp: map_assign_def)
      next
        case (Some b)
        let ?h = "h[b := (h ! b)(key \<mapsto> v)]"
        from Some True \<open>map_lookup h u key = Some v\<close> Cons.prems
        have "update_loop ?h u m ks (acc @ [key]) = (h', r)"
          by (simp add: map_assign_def)
        then have "length h' = length ?h \<and> (\<forall>i. m \<noteq> Some i \<longrightarrow> h' ! i = ?h ! i)"
          by (rule Cons.IH)
        with Some show ?thesis by auto
      qed
    qed
  qed
qed

lemma reconcile_InrD:
  assumes "getUpdatedPropsAndUpdateSummary h cur rs u ks = (h', Inr (p, s))"
  shows "checkForOverlap h rs u = None \<and> p = snd (maps_Clone h cur) \<and>
    (\<exists>h2. removal_loop (fst (maps_Clone h cur)) p rs [] = (h2, Removed s) \<and>
          update_loop h2 u p ks [] = (h', Inr (Updated s))) \<and>
    Missing s = Difference rs (Removed s)"
  using assms
  by (auto simp: getUpdatedPropsAndUpdateSummary_def
      split: option.splits prod.splits sum.splits)

lemma reconcile_frame:
  assumes "getUpdatedPropsAndUpdateSummary h cur rs u ks = (h', r)"
  shows "take (length h) h' = h"
proof (cases "checkForOverlap h rs u")
  case (Some msg)
  with assms show ?thesis
    by (simp add: getUpdatedPropsAndUpdateSummary_def)
next
  case None
  obtain h1 p where clone: "maps_Clone h cur = (h1, p)" by (cases "maps_Clone h cur")
  obtain h2 removed where rem: "removal_loop h1 p rs [] = (h2, removed)"
    by (cases "removal_loop h1 p rs []")
  obtain h3 r3 where upd: "update_loop h2 u p ks [] = (h3, r3)"
    by (cases "update_loop h2 u p ks []")
  from assms None clone rem upd have h': "h' = h3"
    by (auto simp: getUpdatedPropsAndUpdateSummary_def split: sum.splits)
  from clone have c: "length h \<le> length h1" "\<forall>i<length h. h1 ! i = h ! i"
    "\<forall>i<length h. p \<noteq> Some i"
    by (auto simp: maps_Clone_def nth_append split: option.splits)
  from removal_loop_frame [OF rem] update_loop_frame [OF upd] c
  have "length h \<le> length h3" and "\<forall>i<length h. h3 ! i = h ! i"
    by auto
  then show ?thesis
    unfolding h' by (intro nth_equalityI) auto
qed

lemma checkForOverlap_NoneD:
  "checkForOverlap h rs u = None \<Longrightarrow> set rs \<inter> dom (contents h u) = {}"
  by (auto simp: checkForOverlap_def overlap_loop_eq Let_def filter_empty_conv
      split: if_splits)

lemma sublist_format_v: "k \<in> set xs \<Longrightarrow> sublist k (pre @ format_v xs)"
proof -
  assume "k \<in> set xs"
  then have "sublist k (join_spaces xs)" by (rule sublist_join_spaces)
  then obtain ps ss where "join_spaces xs = ps @ k @ ss"
    by (auto simp: sublist_def)
  then have "pre @ format_v xs = (pre @ ''['' @ ps) @ k @ (ss @ '']'')"
    by (simp add: format_v_def)
  then show ?thesis unfolding sublist_def by blast
qed

lemma reconciled_removed:
  "set rs \<inter> dom u = {} \<Longrightarrow> k \<in> set rs \<Longrightarrow> reconciled m u rs ks k = None"
  by (auto simp: reconciled_def differs_def restrict_map_def split: option.splits)

lemma reconciled_settled:
  "dom u \<subseteq> set ks \<Longrightarrow> \<not> differs (reconciled m u rs ks) u k"
  by (auto simp: reconciled_def differs_def split: option.splits)

lemma reconciled_restrict:
  assumes "set rs \<inter> dom u = {}"
  shows "reconciled m u rs ks |` (- set rs) = reconciled m u rs ks"
proof
  fix k
  show "(reconciled m u rs ks |` (- set rs)) k = reconciled m u rs ks k"
    using reconciled_removed [OF assms, of k m ks]
    by (cases "k \<in> set rs") (simp_all add: restrict_map_def)
qed

lemma reconciled_fixpoint:
  assumes "set rs \<inter> dom u = {}" and "dom u \<subseteq> set ks"
  shows "reconciled (reconciled m u rs ks) u rs ks' = reconciled m u rs ks"
proof
  fix k
  have "\<not> differs (reconciled m u rs ks) u k"
    using assms(2) by (rule reconciled_settled)
  then show "reconciled (reconciled m u rs ks) u rs ks' k = reconciled m u rs ks k"
    by (subst reconciled_def) (simp add: reconciled_restrict [OF assms(1)])
qed

lemma removed_keys_none: "set rs \<inter> dom m = {} \<Longrightarrow> removed_keys m rs = []"
  using set_removed_keys [of m rs] by simp

text \<open>
  What the update loop does with one entry \<open>(k, v)\<close> of the update map when the current
  map is not nil: the entry is written and recorded exactly when \<open>updatedProps[k]\<close>, read
  with the zero value for an absent key, is not \<open>v\<close>.
\<close>

lemma updates_applied:
  assumes a: "a < length h" and u: "valid_ref h u" and ks: "range_order h u ks"
    and no: "set rs \<inter> dom (contents h u) = {}"
    and kv: "contents h u k = Some v"
  shows "\<exists>h' s. getUpdatedPropsAndUpdateSummary h (Some a) rs u ks =
                  (h', Inr (Some (length h), s)) \<and>
           (if map_index h (Some a) k \<noteq> v
            then contents h' (Some (length h)) k = Some v \<and> k \<in> set (Updated s)
            else contents h' (Some (length h)) k = (h ! a) k \<and> k \<notin> set (Updated s))"
proof -
  from ks have d: "distinct ks" and k: "k \<in> set ks"
    using kv by (auto simp: range_order_def)
  from no kv have "k \<notin> set rs" by auto
  then have m: "((h ! a) |` (- set rs)) k = (h ! a) k" by simp
  have df: "differs ((h ! a) |` (- set rs)) (contents h u) k \<longleftrightarrow> map_index h (Some a) k \<noteq> v"
    by (simp add: differs_def m kv map_index_def map_lookup_def)
  have r: "reconciled (h ! a) (contents h u) rs ks k =
      (if map_index h (Some a) k \<noteq> v then Some v else (h ! a) k)"
    using k by (simp add: reconciled_def df m kv)
  show ?thesis
    unfolding reconcile_Some [OF a u d no]
    using k by (simp add: r df)
qed

section \<open>Evaluation on the example heaps\<close>

lemmas go_defs = getUpdatedPropsAndUpdateSummary_def checkForOverlap_def maps_Clone_def
  map_lookup_def map_index_def map_delete_def map_assign_def contents_def format_v_def
  valid_ref_def range_order_def

section \<open>Properties of the reconciler\<close>

text \<open>
  Claim C1. The claim asks that an update \<open>(key, value)\<close> whose key is absent from the
  current map is written and recorded in \<open>Updated\<close>, also when \<open>value\<close> is the empty
  string. The code does not do so: on the current map \<open>{}\<close> (object 0, not nil), no
  removals and the update map \<open>{"k": ""}\<close> (object 1), the test
  \<open>updatedProps["k"] != ""\<close> reads the zero value \<open>""\<close> for the absent key and is
  false, so the returned map (object 2) has no entry for \<open>"k"\<close> and \<open>Updated\<close> is
  empty.
\<close>

theorem empty_value_not_recorded:
  "range_order empty_value_heap (Some 1) [''k''] \<and>
   contents empty_value_heap (Some 0) ''k'' = None \<and>
   contents empty_value_heap (Some 1) ''k'' = Some '''' \<and>
   getUpdatedPropsAndUpdateSummary empty_value_heap (Some 0) [] (Some 1) [''k''] =
     (empty_value_heap @ [Map.empty],
      Inr (Some 2, \<lparr>Removed = [], Updated = [], Missing = []\<rparr>)) \<and>
   contents (empty_value_heap @ [Map.empty]) (Some 2) ''k'' = None"
  by (simp add: go_defs empty_value_heap_def)

text \<open>
  Claim C2. If some key is both in \<open>removals\<close> and a key of \<open>updates\<close>, the
  reconciler returns the conflict error, whose message lists the overlapping keys in the
  order of \<open>removals\<close> (so every such key occurs in the message), and the heap is
  unchanged: no map is written and no map is created. If no key overlaps, no conflict
  error is returned.
\<close>

theorem conflict_reported:
  "(set removals \<inter> dom (contents h updates) \<noteq> {} \<longrightarrow>
      (\<exists>msg. getUpdatedPropsAndUpdateSummary h currentProps removals updates order =
                (h, Inl (ConflictError msg)) \<and>
             msg = ''conflict between removals and updates for keys: '' @
                   format_v (filter (\<lambda>k. k \<in> dom (contents h updates)) removals) \<and>
             (\<forall>k \<in> set removals \<inter> dom (contents h updates). sublist k msg))) \<and>
   (set removals \<inter> dom (contents h updates) = {} \<longrightarrow>
      (\<forall>msg. snd (getUpdatedPropsAndUpdateSummary h currentProps removals updates order)
               \<noteq> Inl (ConflictError msg)))"
proof (intro conjI impI)
  assume ov: "set removals \<inter> dom (contents h updates) \<noteq> {}"
  let ?msg = "''conflict between removals and updates for keys: '' @
     format_v (filter (\<lambda>k. k \<in> dom (contents h updates)) removals)"
  have "\<forall>k \<in> set removals \<inter> dom (contents h updates). sublist k ?msg"
  proof
    fix k
    assume "k \<in> set removals \<inter> dom (contents h updates)"
    then have "k \<in> set (filter (\<lambda>k. k \<in> dom (contents h updates)) removals)"
      by simp
    then show "sublist k ?msg" by (rule sublist_format_v)
  qed
  with reconcile_conflict [OF ov, of currentProps order]
  show "\<exists>msg. getUpdatedPropsAndUpdateSummary h currentProps removals updates order =
                (h, Inl (ConflictError msg)) \<and>
             msg = ?msg \<and>
             (\<forall>k \<in> set removals \<inter> dom (contents h updates). sublist k msg)"
    by blast
next
  assume no: "set removals \<inter> dom (contents h updates) = {}"
  show "\<forall>msg. snd (getUpdatedPropsAndUpdateSummary h currentProps removals updates order)
               \<noteq> Inl (ConflictError msg)"
  proof (intro allI notI)
    fix msg
    assume c: "snd (getUpdatedPropsAndUpdateSummary h currentProps removals updates order)
       = Inl (ConflictError msg)"
    obtain h1 p where clone: "maps_Clone h currentProps = (h1, p)"
      by (cases "maps_Clone h currentProps")
    obtain h2 removed where rem: "removal_loop h1 p removals [] = (h2, removed)"
      by (cases "removal_loop h1 p removals []")
    obtain h3 r3 where upd: "update_loop h2 updates p order [] = (h3, r3)"
      by (cases "update_loop h2 updates p order []")
    from c clone rem upd checkForOverlap_None [OF no]
    have "r3 = Inl (ConflictError msg)"
      by (auto simp: getUpdatedPropsAndUpdateSummary_def split: sum.splits)
    with upd update_loop_error [of h2 updates p order "[]" h3 "ConflictError msg"]
    show False by simp
  qed
qed

theorem conflict_reported_witness:
  "getUpdatedPropsAndUpdateSummary example_heap (Some 0) [''a'', ''c'', ''d''] (Some 1) [''d'', ''a''] =
     (example_heap, Inl (ConflictError ''conflict between removals and updates for keys: [a d]'')) \<and>
   sublist ''a'' ''conflict between removals and updates for keys: [a d]'' \<and>
   sublist ''d'' ''conflict between removals and updates for keys: [a d]'' \<and>
   (\<forall>msg. snd (getUpdatedPropsAndUpdateSummary example_heap (Some 0) [''b'', ''c''] (Some 1) [''d'', ''a''])
      \<noteq> Inl (ConflictError msg))"
  using conflict_reported [where h = example_heap and currentProps = "Some 0"
      and removals = "[''a'', ''c'', ''d'']" and updates = "Some 1" and order = "[''d'', ''a'']"]
    conflict_reported [where h = example_heap and currentProps = "Some 0"
      and removals = "[''b'', ''c'']" and updates = "Some 1" and order = "[''d'', ''a'']"]
  by (simp add: example_heap_def contents_def format_v_def)

text \<open>
  Claim C3. Whenever the reconciler returns a summary (which it does only when no key
  overlaps): \<open>Removed\<close> holds exactly the requested removals that were keys of the
  current map, each once; \<open>Missing\<close> is the requested removals without the keys of
  \<open>Removed\<close>, in the order and as often as they were requested; the two share no
  element, and every requested removal is in exactly one of them. \<open>Difference\<close> is
  modelled from the spec.
\<close>

theorem summary_partition:
  assumes cur: "valid_ref h currentProps"
    and ret: "getUpdatedPropsAndUpdateSummary h currentProps removals updates order =
              (h', Inr (p, s))"
  shows "set (Removed s) = set removals \<inter> dom (contents h currentProps) \<and>
         Missing s = Difference removals (Removed s) \<and>
         Missing s = filter (\<lambda>k. k \<notin> set (Removed s)) removals \<and>
         set (Missing s) = set removals - set (Removed s) \<and>
         set (Removed s) \<inter> set (Missing s) = {} \<and>
         (\<forall>k \<in> set removals. (k \<in> set (Removed s)) \<noteq> (k \<in> set (Missing s))) \<and>
         distinct (Removed s)"
proof -
  from reconcile_InrD [OF ret] obtain h2 where
    p: "p = snd (maps_Clone h currentProps)" and
    rem: "removal_loop (fst (maps_Clone h currentProps)) p removals [] = (h2, Removed s)" and
    mis: "Missing s = Difference removals (Removed s)"
    by blast
  have removed: "Removed s = removed_keys (contents h currentProps) removals"
  proof (cases currentProps)
    case None
    with rem p show ?thesis
      by (simp add: maps_Clone_def removal_loop_nil removed_keys_none)
  next
    case (Some a)
    with rem p show ?thesis
      by (simp add: maps_Clone_def removal_loop_Some)
  qed
  have 1: "set (Removed s) = set removals \<inter> dom (contents h currentProps)"
    by (simp add: removed set_removed_keys)
  have 2: "set (Missing s) = set removals - set (Removed s)"
    by (simp add: mis set_Difference)
  have 3: "distinct (Removed s)" by (simp add: removed distinct_removed_keys)
  have 4: "Missing s = filter (\<lambda>k. k \<notin> set (Removed s)) removals"
    by (simp add: mis Difference_filter)
  from 1 2 3 mis 4 show ?thesis by auto
qed

theorem summary_partition_witness:
  "\<exists>h' p s.
     valid_ref example_heap (Some 0) \<and>
     getUpdatedPropsAndUpdateSummary example_heap (Some 0) [''b'', ''b'', ''c'', ''c'']
         (Some 1) [''d'', ''a''] =
       (h', Inr (p, s)) \<and>
     Removed s = [''b''] \<and> Missing s = [''c'', ''c''] \<and>
     set (Removed s) = set [''b'', ''b'', ''c'', ''c''] \<inter> dom (contents example_heap (Some 0)) \<and>
     set (Missing s) = set [''b'', ''b'', ''c'', ''c''] - set (Removed s) \<and>
     set (Removed s) \<inter> set (Missing s) = {}"
proof -
  let ?r = "getUpdatedPropsAndUpdateSummary example_heap (Some 0) [''b'', ''b'', ''c'', ''c'']
      (Some 1) [''d'', ''a'']"
  let ?s = "\<lparr>Removed = [''b''], Updated = [''d''], Missing = [''c'', ''c'']\<rparr>"
  have v: "valid_ref example_heap (Some 0)"
    by (simp add: valid_ref_def example_heap_def)
  have "snd ?r = Inr (Some 2, ?s)"
    by (simp add: go_defs example_heap_def)
  then have ret: "?r = (fst ?r, Inr (Some 2, ?s))"
    by (simp add: prod_eq_iff)
  have s: "Removed ?s = [''b'']" "Missing ?s = [''c'', ''c'']" by simp_all
  from summary_partition [OF v ret] v ret s show ?thesis by blast
qed

text \<open>
  Claim C4. Idempotence. As stated the claim fails where it makes \<open>Missing\<close> the
  removal request without its duplicates: on the request \<open>["b", "c", "b"]\<close> the second
  call returns \<open>Missing = ["b", "c", "b"]\<close> (the counterexample after the witness).
  Amended: if a first call returns the map \<open>P\<close> (so no key overlaps), a second call
  with the same removals and updates on \<open>P\<close>, whatever order the run time visits the
  update map in, succeeds with \<open>Removed\<close> and \<open>Updated\<close> empty and \<open>Missing\<close> equal
  to the removal request as it was given, duplicates included; the map it returns has
  the entries of \<open>P\<close>, and \<open>P\<close> itself is unchanged. \<open>Difference\<close> is modelled from
  the spec.
\<close>

theorem reconcile_idempotent:
  assumes cur: "valid_ref h currentProps" and u: "valid_ref h updates"
    and o1: "range_order h updates order1"
    and first: "getUpdatedPropsAndUpdateSummary h currentProps removals updates order1 =
                (h1, Inr (P, s1))"
    and o2: "range_order h1 updates order2"
  shows "\<exists>h2 P2 s2.
           getUpdatedPropsAndUpdateSummary h1 P removals updates order2 =
             (h2, Inr (P2, s2)) \<and>
           Removed s2 = [] \<and> Updated s2 = [] \<and>
           Missing s2 = removals \<and>
           contents h2 P2 = contents h1 P \<and> contents h2 P = contents h1 P"
proof -
  let ?U = "contents h updates"
  from reconcile_InrD [OF first] have no: "set removals \<inter> dom ?U = {}"
    by (simp add: checkForOverlap_NoneD)
  have miss: "Difference removals [] = removals"
    by (rule Difference_Nil)
  show ?thesis
  proof (cases currentProps)
    case None
    from first reconcile_nil [OF no, of order1]
    have h1: "h1 = h" and P: "P = None"
      and quiet: "\<not> (\<exists>k\<in>set order1. differs Map.empty ?U k)"
      unfolding None by (auto split: if_splits)
    from o1 o2 have "set order2 = set order1"
      by (simp add: range_order_def h1)
    with quiet have "\<not> (\<exists>k\<in>set order2. differs Map.empty ?U k)" by simp
    with reconcile_nil [OF no, of order2]
    have "getUpdatedPropsAndUpdateSummary h1 P removals updates order2 =
        (h, Inr (None, \<lparr>Removed = [], Updated = [], Missing = Difference removals []\<rparr>))"
      unfolding h1 P by simp
    with miss show ?thesis by (simp add: h1 P)
  next
    case (Some a)
    with cur have a: "a < length h" by (simp add: valid_ref_def)
    from o1 have d1: "distinct order1" and s1: "dom ?U \<subseteq> set order1"
      by (simp_all add: range_order_def)
    let ?M = "reconciled (h ! a) ?U removals order1"
    from first reconcile_Some [OF a u d1 no]
    have h1: "h1 = h @ [?M]" and P: "P = Some (length h)"
      unfolding Some by simp_all
    have U1: "contents h1 updates = ?U"
      unfolding h1 using u by (rule contents_append)
    have P1: "length h < length h1" by (simp add: h1)
    have u1: "valid_ref h1 updates"
      using u by (cases updates) (auto simp: valid_ref_def h1)
    from o2 have d2: "distinct order2" by (simp add: range_order_def)
    have no1: "set removals \<inter> dom (contents h1 updates) = {}"
      using no by (simp add: U1)
    have M: "h1 ! length h = ?M" by (simp add: h1)
    have dom: "set removals \<inter> dom ?M = {}"
      using reconciled_removed [OF no, of _ "h ! a" order1] by auto
    have rk: "removed_keys ?M removals = []"
      using dom by (rule removed_keys_none)
    have restr: "?M |` (- set removals) = ?M"
      using no by (rule reconciled_restrict)
    have quiet: "filter (differs ?M ?U) order2 = []"
      using reconciled_settled [OF s1, of "h ! a" removals]
      by (simp add: filter_empty_conv)
    have fixp: "reconciled ?M ?U removals order2 = ?M"
      using no s1 by (rule reconciled_fixpoint)
    from reconcile_Some [OF P1 u1 d2 no1]
    have second: "getUpdatedPropsAndUpdateSummary h1 P removals updates order2 =
        (h1 @ [?M], Inr (Some (length h1),
           \<lparr>Removed = [], Updated = [], Missing = Difference removals []\<rparr>))"
      unfolding P M U1 rk restr quiet fixp by simp
    have "contents (h1 @ [?M]) P = contents h1 P"
      using P1 by (simp add: P nth_append)
    moreover have "contents (h1 @ [?M]) (Some (length h1)) = contents h1 P"
      by (simp add: P M)
    ultimately show ?thesis
      using second miss by simp
  qed
qed

theorem reconcile_idempotent_witness:
  "\<exists>h1 P s1 h2 P2 s2.
     getUpdatedPropsAndUpdateSummary example_heap (Some 0) [''b'', ''c'', ''b''] (Some 1) [''d'', ''a''] =
       (h1, Inr (P, s1)) \<and>
     range_order h1 (Some 1) [''a'', ''d''] \<and>
     getUpdatedPropsAndUpdateSummary h1 P [''b'', ''c'', ''b''] (Some 1) [''a'', ''d''] =
       (h2, Inr (P2, s2)) \<and>
     Removed s1 = [''b''] \<and> Updated s1 = [''d''] \<and> Missing s1 = [''c''] \<and>
     Removed s2 = [] \<and> Updated s2 = [] \<and> Missing s2 = [''b'', ''c'', ''b''] \<and>
     contents h2 P2 = contents h1 P"
proof -
  let ?r = "getUpdatedPropsAndUpdateSummary example_heap (Some 0) [''b'', ''c'', ''b''] (Some 1) [''d'', ''a'']"
  let ?s1 = "\<lparr>Removed = [''b''], Updated = [''d''], Missing = [''c'']\<rparr>"
  have v: "valid_ref example_heap (Some 0)" and u: "valid_ref example_heap (Some 1)"
    by (simp_all add: valid_ref_def example_heap_def)
  have o1: "range_order example_heap (Some 1) [''d'', ''a'']"
    by (auto simp: range_order_def contents_def example_heap_def)
  have "snd ?r = Inr (Some 2, ?s1)"
    by (simp add: go_defs example_heap_def)
  then have first: "?r = (fst ?r, Inr (Some 2, ?s1))"
    by (simp add: prod_eq_iff)
  have len: "length example_heap = 2" by (simp add: example_heap_def)
  have "take 2 (fst ?r) = example_heap"
    using reconcile_frame [OF first] by (simp only: len)
  then have "take 2 (fst ?r) ! 1 = example_heap ! 1" by (rule arg_cong)
  then have "fst ?r ! 1 = example_heap ! 1" by simp
  then have same: "contents (fst ?r) (Some 1) = contents example_heap (Some 1)"
    by (simp add: contents_def)
  have o2: "range_order (fst ?r) (Some 1) [''a'', ''d'']"
    unfolding range_order_def same by (auto simp: contents_def example_heap_def)
  from reconcile_idempotent [OF v u o1 first o2] obtain h2 P2 s2 where
    second: "getUpdatedPropsAndUpdateSummary (fst ?r) (Some 2) [''b'', ''c'', ''b''] (Some 1) [''a'', ''d''] =
       (h2, Inr (P2, s2))"
    and r2: "Removed s2 = []" "Updated s2 = []"
    and m: "Missing s2 = [''b'', ''c'', ''b'']"
    and c2: "contents h2 P2 = contents (fst ?r) (Some 2)"
    by blast
  have s1: "Removed ?s1 = [''b'']" "Updated ?s1 = [''d'']" "Missing ?s1 = [''c'']"
    by simp_all
  from first o2 second s1 r2 m c2 show ?thesis by blast
qed

theorem duplicate_removals_counterexample:
  "snd (getUpdatedPropsAndUpdateSummary example_heap (Some 0) [''b'', ''c'', ''b'']
          (Some 1) [''d'', ''a'']) =
     Inr (Some 2, \<lparr>Removed = [''b''], Updated = [''d''], Missing = [''c'']\<rparr>) \<and>
   snd (getUpdatedPropsAndUpdateSummary
          (fst (getUpdatedPropsAndUpdateSummary example_heap (Some 0) [''b'', ''c'', ''b'']
                  (Some 1) [''d'', ''a'']))
          (Some 2) [''b'', ''c'', ''b''] (Some 1) [''a'', ''d'']) =
     Inr (Some 3, \<lparr>Removed = [], Updated = [], Missing = [''b'', ''c'', ''b'']\<rparr>) \<and>
   \<not> distinct [''b'', ''c'', ''b''] \<and>
   [''b'', ''c'', ''b''] \<noteq> [''b'', ''c'']"
  by (simp add: go_defs example_heap_def)

text \<open>
  Claim C5. The reconciler never writes to the map it is given as \<open>currentProps\<close>:
  whatever the outcome (a summary, the conflict error or a panic), every map object
  that existed before the call has the same entries after it, \<open>currentProps\<close> among
  them. On success the returned map is the clone made by \<open>maps.Clone\<close>, an object that
  did not exist before the call (or nil, the clone of nil).
\<close>

theorem currentProps_not_mutated:
  assumes cur: "valid_ref h currentProps"
    and ret: "getUpdatedPropsAndUpdateSummary h currentProps removals updates order = (h', r)"
  shows "take (length h) h' = h \<and>
         contents h' currentProps = contents h currentProps \<and>
         (\<forall>p s. r = Inr (p, s) \<longrightarrow>
            p = snd (maps_Clone h currentProps) \<and> (\<forall>b. p = Some b \<longrightarrow> length h \<le> b))"
proof -
  have frame: "take (length h) h' = h" using ret by (rule reconcile_frame)
  have same: "contents h' currentProps = contents h currentProps"
  proof (cases currentProps)
    case None
    then show ?thesis by simp
  next
    case (Some a)
    with cur have "a < length h" by (simp add: valid_ref_def)
    then have "take (length h) h' ! a = h' ! a" by simp
    with frame Some show ?thesis by simp
  qed
  have fresh: "p = snd (maps_Clone h currentProps) \<and> (\<forall>b. p = Some b \<longrightarrow> length h \<le> b)"
    if "r = Inr (p, s)" for p s
  proof -
    from ret that reconcile_InrD [of h currentProps removals updates order h' p s]
    have "p = snd (maps_Clone h currentProps)" by simp
    then show ?thesis
      by (cases currentProps) (simp_all add: maps_Clone_def)
  qed
  from frame same fresh show ?thesis by blast
qed

theorem currentProps_not_mutated_witness:
  "valid_ref example_heap (Some 0) \<and>
   take (length example_heap)
     (fst (getUpdatedPropsAndUpdateSummary example_heap (Some 0) [''b'', ''c''] (Some 1) [''d'', ''a''])) =
     example_heap \<and>
   contents (fst (getUpdatedPropsAndUpdateSummary example_heap (Some 0) [''b'', ''c''] (Some 1) [''d'', ''a'']))
     (Some 0) ''b'' = Some ''2'' \<and>
   contents (fst (getUpdatedPropsAndUpdateSummary example_heap (Some 0) [''b'', ''c''] (Some 1) [''d'', ''a'']))
     (Some 2) ''b'' = None"
proof -
  let ?r = "getUpdatedPropsAndUpdateSummary example_heap (Some 0) [''b'', ''c''] (Some 1) [''d'', ''a'']"
  have v: "valid_ref example_heap (Some 0)"
    by (simp add: valid_ref_def example_heap_def)
  have ret: "?r = (fst ?r, snd ?r)" by simp
  have b: "contents example_heap (Some 0) ''b'' = Some ''2''"
    by (simp add: contents_def example_heap_def)
  have c: "contents (fst ?r) (Some 2) ''b'' = None"
    by (simp add: go_defs example_heap_def)
  from currentProps_not_mutated [OF v ret] v b c show ?thesis by simp
qed

text \<open>
  Claim C10. As stated the claim fails when a key overlaps: with a nil current map and the
  update \<open>{"a": "1"}\<close>, removing \<open>"a"\<close> returns the conflict error before any
  assignment, and so does the same call on a map that is not nil (the counterexample
  after the witness). Amended: if no key is in both the removals and
  the updates, \<open>currentProps\<close> is nil and the update map has a key whose value is not
  the empty string, the assignment into the nil clone panics; the same call on any
  current map that is not nil returns a map and a summary.
\<close>

theorem nil_current_panics:
  assumes u: "valid_ref h updates" and ord: "range_order h updates order"
    and no: "set removals \<inter> dom (contents h updates) = {}"
    and kv: "contents h updates k = Some v" and v: "v \<noteq> []"
  shows "getUpdatedPropsAndUpdateSummary h None removals updates order =
           (h, Inl NilMapAssignment) \<and>
         (\<forall>a. a < length h \<longrightarrow>
            (\<exists>h' p s. getUpdatedPropsAndUpdateSummary h (Some a) removals updates order =
                        (h', Inr (p, s))))"
proof -
  from ord kv have "k \<in> set order" by (auto simp: range_order_def)
  moreover from kv v have "differs Map.empty (contents h updates) k"
    by (simp add: differs_def)
  ultimately have "\<exists>k\<in>set order. differs Map.empty (contents h updates) k" by blast
  with reconcile_nil [OF no, of order]
  have 1: "getUpdatedPropsAndUpdateSummary h None removals updates order =
      (h, Inl NilMapAssignment)" by simp
  from ord have d: "distinct order" by (simp add: range_order_def)
  have 2: "\<exists>h' p s. getUpdatedPropsAndUpdateSummary h (Some a) removals updates order =
      (h', Inr (p, s))" if "a < length h" for a
    using reconcile_Some [OF that u d no] by blast
  from 1 2 show ?thesis by blast
qed

theorem nil_current_panics_witness:
  "getUpdatedPropsAndUpdateSummary conflict_heap None [''x''] (Some 0) [''a''] =
     (conflict_heap, Inl NilMapAssignment) \<and>
   (\<exists>h' p s. getUpdatedPropsAndUpdateSummary conflict_heap (Some 1) [''x''] (Some 0) [''a''] =
      (h', Inr (p, s)))"
proof -
  have u: "valid_ref conflict_heap (Some 0)"
    by (simp add: valid_ref_def conflict_heap_def)
  have ord: "range_order conflict_heap (Some 0) [''a'']"
    by (simp add: range_order_def contents_def conflict_heap_def)
  have no: "set [''x''] \<inter> dom (contents conflict_heap (Some 0)) = {}"
    by (simp add: contents_def conflict_heap_def)
  have kv: "contents conflict_heap (Some 0) ''a'' = Some ''1''"
    by (simp add: contents_def conflict_heap_def)
  have v: "''1'' \<noteq> []" by simp
  have len: "1 < length conflict_heap" by (simp add: conflict_heap_def)
  from nil_current_panics [OF u ord no kv v] len show ?thesis by blast
qed

theorem nil_current_overlap_counterexample:
  "contents conflict_heap (Some 0) ''a'' = Some ''1'' \<and>
   getUpdatedPropsAndUpdateSummary conflict_heap None [''a''] (Some 0) [''a''] =
     (conflict_heap, Inl (ConflictError ''conflict between removals and updates for keys: [a]'')) \<and>
   getUpdatedPropsAndUpdateSummary conflict_heap (Some 1) [''a''] (Some 0) [''a''] =
     (conflict_heap, Inl (ConflictError ''conflict between removals and updates for keys: [a]''))"
  by (simp add: go_defs conflict_heap_def)

end
